theory Spec2Isabelle
  imports Main "HOL-Library.Word"
begin

section \<open>Code units, buffers and the allocator\<close>

text \<open>
  A C \<open>char\<close> is an 8-bit word. The library only compares it for equality and against the
  ASCII ranges \<open>'a'..'z'\<close> and \<open>'A'..'Z'\<close>; on those tests a signed and an unsigned
  \<open>char\<close> agree, so the unsigned order of \<open>8 word\<close> is used.

  A \<open>char*\<close> is modelled by the bytes of the array it points to, from the pointer on,
  with the array's final NUL left implicit: reading at the end of the list yields 0.
  A 0 byte inside the list ends the string there, exactly as in C, and the bytes behind
  it are kept (the in-place functions leave them alone). \<open>NULL\<close> is \<open>None\<close>.

  C's \<open>int\<close> is modelled by \<open>int\<close>. Buffers are taken to hold fewer than \<open>2^31\<close> units,
  so every length, count and index the code derives from a buffer fits an \<open>int\<close>;
  where the code combines caller-supplied integers, the signed overflow (undefined
  behaviour in C) is a result of its own, \<open>Signed_Overflow\<close>.
\<close>

type_synonym cchar = "8 word"
type_synonym buffer = "cchar list"

definition bytes :: "string \<Rightarrow> buffer" where
  "bytes s = map of_char s"

definition deref :: "buffer \<Rightarrow> nat \<Rightarrow> cchar" where
  "deref s i = (if i < length s then s ! i else 0)"

definition content :: "buffer \<Rightarrow> cchar list" where
  "content s = takeWhile (\<lambda>c. c \<noteq> 0) s"

definition INT_MAX :: int where
  "INT_MAX = 2147483647"

datatype fault = Signed_Overflow

text \<open>
  The allocator: \<open>fails h n\<close> tells whether the \<open>n\<close>-th call of \<open>malloc\<close> fails,
  \<open>calls h\<close> counts the calls made so far, and \<open>live h\<close> lists the blocks allocated and
  not yet freed, each with its address and size. A new block gets an address above
  every live one.
\<close>

record heap =
  fails :: "nat \<Rightarrow> bool"
  calls :: nat
  live :: "(nat \<times> nat) list"

type_synonym owned = "nat \<times> buffer"

definition fresh :: "(nat \<times> nat) list \<Rightarrow> nat" where
  "fresh bs = Suc (foldr max (map fst bs) 0)"

definition malloc :: "nat \<Rightarrow> heap \<Rightarrow> nat option \<times> heap" where
  "malloc sz h =
     (if fails h (calls h) then (None, h\<lparr>calls := Suc (calls h)\<rparr>)
      else (Some (fresh (live h)),
            h\<lparr>calls := Suc (calls h), live := live h @ [(fresh (live h), sz)]\<rparr>))"

definition free :: "nat \<Rightarrow> heap \<Rightarrow> heap" where
  "free a h = h\<lparr>live := filter (\<lambda>b. fst b \<noteq> a) (live h)\<rparr>"

definition heap0 :: heap where
  "heap0 = \<lparr>fails = (\<lambda>n. False), calls = 0, live = []\<rparr>"

definition sizeof_ptr :: nat where
  "sizeof_ptr = 8"

section \<open>Private helpers\<close>

definition char_capitalize :: "cchar \<Rightarrow> cchar" where
  "char_capitalize c = (if 97 \<le> c \<and> c \<le> 122 then c - 32 else c)"

definition char_decapitalize :: "cchar \<Rightarrow> cchar" where
  "char_decapitalize c = (if 65 \<le> c \<and> c \<le> 90 then c + 32 else c)"

definition is_whitespace :: "cchar \<Rightarrow> bool" where
  "is_whitespace c \<longleftrightarrow> c = 32 \<or> c = 9 \<or> c = 10 \<or> c = 13 \<or> c = 12 \<or> c = 11"

section \<open>Length\<close>

fun str_len_loop :: "buffer \<Rightarrow> int \<Rightarrow> int" where
  "str_len_loop [] n = n"
| "str_len_loop (c # ptr) n = (if c = 0 then n else str_len_loop ptr (n + 1))"

definition str_len :: "buffer option \<Rightarrow> int" where
  "str_len text = (case text of None \<Rightarrow> 0 | Some s \<Rightarrow> str_len_loop s 0)"

section \<open>Case conversion\<close>

fun uppercase_loop :: "buffer \<Rightarrow> buffer" where
  "uppercase_loop [] = []"
| "uppercase_loop (c # p) = (if c = 0 then c # p else char_capitalize c # uppercase_loop p)"

definition str_uppercase :: "buffer option \<Rightarrow> buffer option" where
  "str_uppercase text = (case text of None \<Rightarrow> None | Some s \<Rightarrow> Some (uppercase_loop s))"

fun uppercase_copy :: "buffer \<Rightarrow> buffer" where
  "uppercase_copy [] = []"
| "uppercase_copy (c # src) = (if c = 0 then [] else char_capitalize c # uppercase_copy src)"

definition str_uppercase_n :: "heap \<Rightarrow> buffer option \<Rightarrow> owned option \<times> heap" where
  "str_uppercase_n h text =
     (case text of None \<Rightarrow> (None, h)
      | Some s \<Rightarrow>
          (let len = str_len text in
           case malloc (nat (len + 1)) h of
             (None, h') \<Rightarrow> (None, h')
           | (Some new_text, h') \<Rightarrow> (Some (new_text, uppercase_copy s), h')))"

fun lowercase_loop :: "buffer \<Rightarrow> buffer" where
  "lowercase_loop [] = []"
| "lowercase_loop (c # p) = (if c = 0 then c # p else char_decapitalize c # lowercase_loop p)"

definition str_lowercase :: "buffer option \<Rightarrow> buffer option" where
  "str_lowercase text = (case text of None \<Rightarrow> None | Some s \<Rightarrow> Some (lowercase_loop s))"

fun lowercase_copy :: "buffer \<Rightarrow> buffer" where
  "lowercase_copy [] = []"
| "lowercase_copy (c # src) = (if c = 0 then [] else char_decapitalize c # lowercase_copy src)"

definition str_lowercase_n :: "heap \<Rightarrow> buffer option \<Rightarrow> owned option \<times> heap" where
  "str_lowercase_n h text =
     (case text of None \<Rightarrow> (None, h)
      | Some s \<Rightarrow>
          (let len = str_len text in
           case malloc (nat (len + 1)) h of
             (None, h') \<Rightarrow> (None, h')
           | (Some new_text, h') \<Rightarrow> (Some (new_text, lowercase_copy s), h')))"

fun title_loop :: "bool \<Rightarrow> buffer \<Rightarrow> buffer" where
  "title_loop capitalize_next [] = []"
| "title_loop capitalize_next (c # p) =
     (if c = 0 then c # p
      else if is_whitespace c then c # title_loop True p
      else if capitalize_next then char_capitalize c # title_loop False p
      else char_decapitalize c # title_loop capitalize_next p)"

definition str_title :: "buffer option \<Rightarrow> buffer option" where
  "str_title text = (case text of None \<Rightarrow> None | Some s \<Rightarrow> Some (title_loop True s))"

definition str_title_n :: "heap \<Rightarrow> buffer option \<Rightarrow> owned option \<times> heap" where
  "str_title_n h text =
     (case text of None \<Rightarrow> (None, h)
      | Some s \<Rightarrow>
          (let len = str_len text in
           case malloc (nat (len + 1)) h of
             (None, h') \<Rightarrow> (None, h')
           | (Some new_text, h') \<Rightarrow>
               (case str_title (Some (take (nat len) s)) of
                  None \<Rightarrow> (None, h')
                | Some titled \<Rightarrow> (Some (new_text, titled), h'))))"

section \<open>Searching and character access\<close>

fun index_of_loop :: "cchar \<Rightarrow> buffer \<Rightarrow> int \<Rightarrow> int" where
  "index_of_loop search [] n = - 1"
| "index_of_loop search (c # ptr) n =
     (if c = 0 then - 1 else if c = search then n else index_of_loop search ptr (n + 1))"

definition index_of :: "cchar \<Rightarrow> buffer option \<Rightarrow> int" where
  "index_of search text = (case text of None \<Rightarrow> - 1 | Some s \<Rightarrow> index_of_loop search s 0)"

definition str_char_at :: "buffer option \<Rightarrow> int \<Rightarrow> cchar" where
  "str_char_at text index =
     (case text of None \<Rightarrow> 0
      | Some s \<Rightarrow>
          if index < 0 then 0
          else (let len = str_len text in
                if index \<ge> len then 0 else deref s (nat index)))"

section \<open>Splitting and joining\<close>

text \<open>
  In the two passes of \<open>str_split\<close> a pointer into the text is the rest of the buffer
  from that pointer on; the difference \<open>ptr - token_start\<close> of two such pointers is the
  difference of the lengths. The result array is the list of its entries before the
  closing \<open>NULL\<close>, each a token with the address of its block.
\<close>

fun count_tokens :: "cchar \<Rightarrow> buffer \<Rightarrow> int \<Rightarrow> int" where
  "count_tokens delimiter [] token_count = token_count"
| "count_tokens delimiter (c # ptr) token_count =
     (if c = 0 then token_count
      else count_tokens delimiter ptr (if c = delimiter then token_count + 1 else token_count))"

definition new_token :: "buffer \<Rightarrow> nat \<Rightarrow> heap \<Rightarrow> owned option \<times> heap" where
  "new_token token_start token_length h =
     (case malloc (token_length + 1) h of
        (None, h') \<Rightarrow> (None, h')
      | (Some token, h') \<Rightarrow> (Some (token, take token_length token_start), h'))"

fun split_loop ::
  "cchar \<Rightarrow> buffer \<Rightarrow> buffer \<Rightarrow> owned list \<Rightarrow> heap \<Rightarrow> bool \<times> owned list \<times> heap" where
  "split_loop delimiter [] token_start result h =
     (case new_token token_start (length token_start) h of
        (None, h') \<Rightarrow> (False, result, h')
      | (Some token, h') \<Rightarrow> (True, result @ [token], h'))"
| "split_loop delimiter (c # ptr) token_start result h =
     (if c = delimiter \<or> c = 0 then
        (case new_token token_start (length token_start - length (c # ptr)) h of
           (None, h') \<Rightarrow> (False, result, h')
         | (Some token, h') \<Rightarrow>
             if c = 0 then (True, result @ [token], h')
             else split_loop delimiter ptr ptr (result @ [token]) h')
      else split_loop delimiter ptr token_start result h)"

fun free_tokens :: "owned list \<Rightarrow> heap \<Rightarrow> heap" where
  "free_tokens [] h = h"
| "free_tokens (p # ps) h = free_tokens ps (free (fst p) h)"

definition str_split ::
  "heap \<Rightarrow> buffer option \<Rightarrow> cchar \<Rightarrow> (nat \<times> owned list) option \<times> heap" where
  "str_split h text delimiter =
     (case text of None \<Rightarrow> (None, h)
      | Some s \<Rightarrow>
          (let token_count = count_tokens delimiter s 1 in
           case malloc (sizeof_ptr * nat (token_count + 1)) h of
             (None, h') \<Rightarrow> (None, h')
           | (Some result, h') \<Rightarrow>
               (case split_loop delimiter s s [] h' of
                  (True, tokens, h'') \<Rightarrow> (Some (result, tokens), h'')
                | (False, tokens, h'') \<Rightarrow> (None, free result (free_tokens tokens h'')))))"

fun join_count :: "buffer list \<Rightarrow> int \<Rightarrow> int \<Rightarrow> int \<times> int" where
  "join_count [] total_len count = (total_len, count)"
| "join_count (p # ptr) total_len count =
     join_count ptr (total_len + str_len (Some p)) (count + 1)"

function join_loop :: "buffer list \<Rightarrow> cchar \<Rightarrow> int \<Rightarrow> int \<Rightarrow> buffer" where
  "join_loop str sep i count =
     (if i < count then
        (let part_len = str_len (Some (str ! nat i)) in
         take (nat part_len) (str ! nat i)
           @ (if i < count - 1 then [sep] else [])
           @ join_loop str sep (i + 1) count)
      else [])"
  by pat_completeness auto
termination
  by (relation "measure (\<lambda>(str, sep, i, count). nat (count - i))") auto

definition str_join_n :: "heap \<Rightarrow> buffer list option \<Rightarrow> cchar \<Rightarrow> owned option \<times> heap" where
  "str_join_n h str sep =
     (case str of None \<Rightarrow> (None, h)
      | Some arr \<Rightarrow>
          (case join_count arr 0 0 of
             (total_len, count) \<Rightarrow>
               if count = 0 then
                 (case malloc 1 h of
                    (None, h') \<Rightarrow> (None, h')
                  | (Some empty', h') \<Rightarrow> (Some (empty', []), h'))
               else
                 (case malloc (nat (total_len + (count - 1) + 1)) h of
                    (None, h') \<Rightarrow> (None, h')
                  | (Some result, h') \<Rightarrow> (Some (result, join_loop arr sep 0 count), h'))))"

section \<open>Trimming\<close>

text \<open>
  \<open>str_trim\<close> moves pointers both ways, so here a pointer is an index into the buffer.
\<close>

function skip_whitespace :: "buffer \<Rightarrow> nat \<Rightarrow> nat" where
  "skip_whitespace s start =
     (if deref s start \<noteq> 0 \<and> is_whitespace (deref s start)
      then skip_whitespace s (start + 1) else start)"
  by pat_completeness auto
termination
  by (relation "measure (\<lambda>(s, start). length s - start)")
     (auto simp: deref_def split: if_splits)

function back_whitespace :: "buffer \<Rightarrow> nat \<Rightarrow> nat \<Rightarrow> nat" where
  "back_whitespace s start e =
     (if e > start \<and> is_whitespace (deref s e)
      then back_whitespace s start (e - 1) else e)"
  by pat_completeness auto
termination
  by (relation "measure (\<lambda>(s, start, e). e)") auto

function shift_down :: "buffer \<Rightarrow> nat \<Rightarrow> nat \<Rightarrow> buffer" where
  "shift_down s dest start =
     (if deref s start \<noteq> 0
      then shift_down (s[dest := deref s start]) (dest + 1) (start + 1)
      else s[dest := deref s start])"
  by pat_completeness auto
termination
  by (relation "measure (\<lambda>(s, dest, start). length s - start)")
     (auto simp: deref_def split: if_splits)

definition str_trim :: "buffer option \<Rightarrow> buffer option" where
  "str_trim text =
     (case text of None \<Rightarrow> None
      | Some s \<Rightarrow>
          (let start = skip_whitespace s 0 in
           if deref s start = 0 then Some (s[0 := 0])
           else
             (let e = back_whitespace s start (nat (str_len (Some s) - 1));
                  s' = s[e + 1 := 0]
              in if start > 0 then Some (shift_down s' 0 start) else Some s')))"

definition str_trim_n :: "heap \<Rightarrow> buffer option \<Rightarrow> owned option \<times> heap" where
  "str_trim_n h text =
     (case text of None \<Rightarrow> (None, h)
      | Some s \<Rightarrow>
          (let start = skip_whitespace s 0 in
           if deref s start = 0 then
             (case malloc 1 h of
                (None, h') \<Rightarrow> (None, h')
              | (Some result, h') \<Rightarrow> (Some (result, []), h'))
           else
             (let e = back_whitespace s start (nat (str_len (Some s) - 1));
                  new_len = int e - int start + 1
              in case malloc (nat (new_len + 1)) h of
                   (None, h') \<Rightarrow> (None, h')
                 | (Some result, h') \<Rightarrow>
                     (Some (result, take (nat new_len) (drop start s)), h'))))"

section \<open>Generation\<close>

fun repeat_loop :: "buffer \<Rightarrow> nat \<Rightarrow> nat \<Rightarrow> buffer" where
  "repeat_loop text len 0 = []"
| "repeat_loop text len (Suc times') = take len text @ repeat_loop text len times'"

definition str_repeat_n ::
  "heap \<Rightarrow> buffer option \<Rightarrow> int \<Rightarrow> (fault + owned option) \<times> heap" where
  "str_repeat_n h text times' =
     (case text of None \<Rightarrow> (Inr None, h)
      | Some s \<Rightarrow>
          if times' \<le> 0 then
            (case malloc 1 h of
               (None, h') \<Rightarrow> (Inr None, h')
             | (Some empty', h') \<Rightarrow> (Inr (Some (empty', [])), h'))
          else
            (let len = str_len text in
             if len = 0 then
               (case malloc 1 h of
                  (None, h') \<Rightarrow> (Inr None, h')
                | (Some empty', h') \<Rightarrow> (Inr (Some (empty', [])), h'))
             else if INT_MAX < len * times' then (Inl Signed_Overflow, h)
             else
               (let result_len = len * times' in
                if INT_MAX < result_len + 1 then (Inl Signed_Overflow, h)
                else
                  (case malloc (nat (result_len + 1)) h of
                     (None, h') \<Rightarrow> (Inr None, h')
                   | (Some result, h') \<Rightarrow>
                       (Inr (Some (result, repeat_loop s (nat len) (nat times'))), h')))))"

definition str_substring_n ::
  "heap \<Rightarrow> buffer option \<Rightarrow> int \<Rightarrow> int \<Rightarrow> (fault + owned option) \<times> heap" where
  "str_substring_n h text start len =
     (case text of None \<Rightarrow> (Inr None, h)
      | Some s \<Rightarrow>
          (let text_len = str_len text;
               start = (if start < 0 then 0 else start)
           in if start \<ge> text_len then
                (case malloc 1 h of
                   (None, h') \<Rightarrow> (Inr None, h')
                 | (Some empty', h') \<Rightarrow> (Inr (Some (empty', [])), h'))
              else if \<not> len < 0 \<and> INT_MAX < start + len then (Inl Signed_Overflow, h)
              else
                (let len = (if len < 0 \<or> start + len > text_len then text_len - start else len)
                 in case malloc (nat (len + 1)) h of
                      (None, h') \<Rightarrow> (Inr None, h')
                    | (Some result, h') \<Rightarrow>
                        (Inr (Some (result, take (nat len) (drop (nat start) s))), h'))))"

section \<open>Notions of the specification\<close>

text \<open>
  The whitespace units as the specification lists them: space, tab, newline, carriage
  return, form feed and vertical tab.
\<close>

definition whitespace_units :: "cchar set" where
  "whitespace_units = {32, 9, 10, 13, 12, 11}"

text \<open>
  Title-casing as the specification words it: a left-to-right scan over the units of the
  text that carries the flag ``at word start'' and the output written so far.
\<close>

definition title_step :: "bool \<times> cchar list \<Rightarrow> cchar \<Rightarrow> bool \<times> cchar list" where
  "title_step st c =
     (case st of (at_word_start, out) \<Rightarrow>
        if c \<in> whitespace_units then (True, out @ [c])
        else if at_word_start then (False, out @ [char_capitalize c])
        else (at_word_start, out @ [char_decapitalize c]))"

definition title_case_spec :: "cchar list \<Rightarrow> cchar list" where
  "title_case_spec t = snd (foldl title_step (True, []) t)"

text \<open>
  Splitting as the specification words it: the text is cut at every occurrence of the
  delimiter, so that there is one token more than there are occurrences, and joining puts
  the separator strictly between the tokens.
\<close>

fun tokens_of :: "cchar \<Rightarrow> cchar list \<Rightarrow> cchar list list" where
  "tokens_of d [] = [[]]"
| "tokens_of d (c # cs) =
     (if c = d then [] # tokens_of d cs
      else (c # hd (tokens_of d cs)) # tl (tokens_of d cs))"

fun intercalate :: "cchar \<Rightarrow> cchar list list \<Rightarrow> cchar list" where
  "intercalate sep [] = []"
| "intercalate sep [t] = t"
| "intercalate sep (t # u # ts) = t @ sep # intercalate sep (u # ts)"

definition token_list :: "(nat \<times> owned list) option \<times> heap \<Rightarrow> buffer list option" where
  "token_list r = map_option (\<lambda>p. map snd (snd p)) (fst r)"

definition fails_at :: "nat \<Rightarrow> heap" where
  "fails_at k = \<lparr>fails = (\<lambda>n. n = k), calls = 0, live = []\<rparr>"

text \<open>
  Trimming as the specification words it: the text without its leading and its trailing
  run of whitespace units; and the property that a text neither starts nor ends with one.
\<close>

definition trim_both_spec :: "cchar list \<Rightarrow> cchar list" where
  "trim_both_spec t = dropWhile (\<lambda>c. c \<in> whitespace_units)
     (rev (dropWhile (\<lambda>c. c \<in> whitespace_units) (rev t)))"

definition no_edge_whitespace :: "cchar list \<Rightarrow> bool" where
  "no_edge_whitespace t \<longleftrightarrow>
     t = [] \<or> (hd t \<notin> whitespace_units \<and> last t \<notin> whitespace_units)"

section \<open>Basic facts\<close>

lemma str_len_loop_content: "str_len_loop s n = n + int (length (content s))"
  by (induction s arbitrary: n) (simp_all add: content_def)

lemma str_len_Some: "str_len (Some s) = int (length (content s))"
  by (simp add: str_len_def str_len_loop_content)

lemma length_content_le: "length (content s) \<le> length s"
  by (simp add: content_def length_takeWhile_le)

lemma content_nth_nonzero: "i < length (content s) \<Longrightarrow> content s ! i \<noteq> 0"
  unfolding content_def using nth_mem set_takeWhileD by fastforce

lemma content_nth: "i < length (content s) \<Longrightarrow> content s ! i = s ! i"
  by (simp add: content_def takeWhile_nth)

lemma char_capitalize_nonzero: "c \<noteq> 0 \<Longrightarrow> char_capitalize c \<noteq> 0"
  by (auto simp: char_capitalize_def)

lemma add_32_zero: "(c :: cchar) + 32 = 0 \<Longrightarrow> c = 224"
proof -
  assume "c + 32 = 0"
  then have "c + 32 - 32 = 0 - 32" by simp
  then show ?thesis by simp
qed

lemma char_decapitalize_nonzero: "c \<noteq> 0 \<Longrightarrow> char_decapitalize c \<noteq> 0"
  by (auto simp: char_decapitalize_def dest!: add_32_zero)

lemma malloc_ok: "\<not> fails h (calls h) \<Longrightarrow>
  malloc n h = (Some (fresh (live h)), h\<lparr>calls := Suc (calls h), live := live h @ [(fresh (live h), n)]\<rparr>)"
  by (simp add: malloc_def)

lemma malloc_fail: "fails h (calls h) \<Longrightarrow> malloc n h = (None, h\<lparr>calls := Suc (calls h)\<rparr>)"
  by (simp add: malloc_def)

lemma take_content: "take (length (content s)) s = content s"
  unfolding content_def by (rule takeWhile_eq_take [symmetric])

lemma content_Nil [simp]: "content [] = []"
  by (simp add: content_def)

lemma content_Cons: "content (c # s) = (if c = 0 then [] else c # content s)"
  by (simp add: content_def)

lemma content_idem: "content (content s) = content s"
  by (simp add: content_def)

lemma zero_notin_content: "0 \<notin> set (content s)"
  unfolding content_def by (auto dest: set_takeWhileD)

lemma content_id: "0 \<notin> set s \<Longrightarrow> content s = s"
  by (induction s) (simp_all add: content_Cons)

lemma content_map_nonzero:
  assumes "\<And>c. c \<noteq> 0 \<Longrightarrow> f c \<noteq> (0 :: cchar)"
  shows "content (map f (content s)) = map f (content s)"
proof (rule content_id)
  show "0 \<notin> set (map f (content s))"
    using assms zero_notin_content [of s] by (metis (no_types, lifting) imageE list.set_map)
qed

lemma index_of_loop_zero: "index_of_loop 0 s n = - 1"
  by (induction s arbitrary: n) simp_all

lemma uppercase_copy_map: "uppercase_copy s = map char_capitalize (content s)"
  by (induction s) (simp_all add: content_Cons)

lemma content_uppercase_loop: "content (uppercase_loop s) = map char_capitalize (content s)"
  by (induction s) (simp_all add: content_Cons char_capitalize_nonzero)

lemma lowercase_copy_map: "lowercase_copy s = map char_decapitalize (content s)"
  by (induction s) (simp_all add: content_Cons)

lemma content_lowercase_loop: "content (lowercase_loop s) = map char_decapitalize (content s)"
  by (induction s) (simp_all add: content_Cons char_decapitalize_nonzero)

lemma is_whitespace_units: "is_whitespace c \<longleftrightarrow> c \<in> whitespace_units"
  by (auto simp: is_whitespace_def whitespace_units_def)

lemma whitespace_nonzero: "is_whitespace c \<Longrightarrow> c \<noteq> 0"
  by (auto simp: is_whitespace_def)

lemma foldl_title_step_out:
  "snd (foldl title_step (f, out) xs) = out @ snd (foldl title_step (f, []) xs)"
proof (induction xs arbitrary: f out)
  case Nil
  show ?case by simp
next
  case (Cons x xs)
  show ?case
    using Cons.IH [of _ "out @ [_]"] Cons.IH [of _ "[_]"]
    by (simp add: title_step_def)
qed

lemma title_spec_Cons:
  "snd (foldl title_step (f, []) (c # xs)) =
     (if is_whitespace c then c # snd (foldl title_step (True, []) xs)
      else if f then char_capitalize c # snd (foldl title_step (False, []) xs)
      else char_decapitalize c # snd (foldl title_step (False, []) xs))"
  using foldl_title_step_out [of _ "[_]" xs]
  by (simp add: title_step_def is_whitespace_units)

lemma content_title_loop:
  "content (title_loop f s) = snd (foldl title_step (f, []) (content s))"
proof (induction s arbitrary: f)
  case Nil
  show ?case by simp
next
  case (Cons c s)
  show ?case
    by (simp add: content_Cons title_spec_Cons Cons.IH whitespace_nonzero
        char_capitalize_nonzero char_decapitalize_nonzero del: foldl_Cons)
qed

lemma title_loop_no_zero:
  "0 \<notin> set s \<Longrightarrow> title_loop f s = snd (foldl title_step (f, []) s)"
proof (induction s arbitrary: f)
  case Nil
  show ?case by simp
next
  case (Cons c s)
  then show ?case
    by (simp add: title_spec_Cons del: foldl_Cons)
qed

lemma repeat_loop_concat: "repeat_loop s len n = concat (replicate n (take len s))"
  by (induction n) simp_all

lemma length_concat_replicate: "length (concat (replicate n xs)) = n * length xs"
  by (induction n) simp_all

lemma str_repeat_n_within_int:
  assumes "\<not> fails h (calls h)"
  shows "(times' \<le> 0 \<or> content s = [] \<longrightarrow>
           fst (str_repeat_n h (Some s) times') = Inr (Some (fresh (live h), []))) \<and>
         (0 < times' \<and> content s \<noteq> [] \<and> int (length (content s)) * times' < INT_MAX \<longrightarrow>
           fst (str_repeat_n h (Some s) times') =
             Inr (Some (fresh (live h), concat (replicate (nat times') (content s)))) \<and>
           length (concat (replicate (nat times') (content s))) =
             nat times' * length (content s))"
  using assms
  by (auto simp: str_repeat_n_def malloc_def str_len_Some Let_def repeat_loop_concat
      take_content length_concat_replicate)

lemma str_repeat_n_examples:
  "fst (str_repeat_n heap0 (Some (bytes ''ab'')) 3) = Inr (Some (1, bytes ''ababab'')) \<and>
   fst (str_repeat_n heap0 (Some (bytes ''ab'')) 0) = Inr (Some (1, [])) \<and>
   fst (str_repeat_n heap0 (Some []) 3) = Inr (Some (1, []))"
  using str_repeat_n_within_int [of heap0 3 "bytes ''ab''"]
    str_repeat_n_within_int [of heap0 0 "bytes ''ab''"]
    str_repeat_n_within_int [of heap0 3 "[]"]
  by (simp add: heap0_def bytes_def content_def INT_MAX_def fresh_def numeral_3_eq_3)

lemma take_drop_content:
  "a + n \<le> length (content s) \<Longrightarrow> take n (drop a s) = take n (drop a (content s))"
proof -
  assume le: "a + n \<le> length (content s)"
  have "take n (drop a (content s)) = take n (drop a (take (length (content s)) s))"
    by (simp add: take_content)
  also have "\<dots> = take n (drop a s)"
    using le by (simp add: drop_take min_def)
  finally show ?thesis by simp
qed

lemma str_substring_n_clamps:
  assumes ok: "\<not> fails h (calls h)" and fits: "len < 0 \<or> max 0 start + len \<le> INT_MAX"
  shows "fst (str_substring_n h (Some s) start len) =
     Inr (Some (fresh (live h),
       take (if len < 0 then length (content s) else nat len)
         (drop (nat (max 0 start)) (content s))))"
proof -
  define st where "st = max 0 start"
  define L where "L = int (length (content s))"
  have st0: "0 \<le> st" by (simp add: st_def)
  show ?thesis
  proof (cases "L \<le> st")
    case True
    then have "drop (nat (max 0 start)) (content s) = []"
      using st0 by (simp add: L_def st_def)
    moreover have "fst (str_substring_n h (Some s) start len) = Inr (Some (fresh (live h), []))"
      using True ok unfolding st_def L_def
      by (auto simp: str_substring_n_def str_len_Some malloc_def Let_def max_def)
    ultimately show ?thesis by simp
  next
    case False
    define n where "n = (if len < 0 \<or> L < st + len then L - st else len)"
    have n0: "0 \<le> n" and nL: "st + n \<le> L"
      using False st0 by (auto simp: n_def)
    have code: "fst (str_substring_n h (Some s) start len) =
        Inr (Some (fresh (live h), take (nat n) (drop (nat st) s)))"
      using False ok fits
      by (auto simp: str_substring_n_def str_len_Some malloc_def Let_def st_def L_def
          n_def max_def split: if_splits)
    have "nat st + nat n \<le> length (content s)"
      using st0 n0 nL by (simp add: L_def)
    then have "take (nat n) (drop (nat st) s) = take (nat n) (drop (nat st) (content s))"
      by (rule take_drop_content)
    also have "\<dots> = take (if len < 0 then length (content s) else nat len)
        (drop (nat st) (content s))"
      using False st0 by (auto simp: n_def L_def)
    finally show ?thesis
      using code by (simp add: st_def)
  qed
qed

lemma str_substring_n_examples:
  "fst (str_substring_n heap0 (Some (bytes ''abcdef'')) (- 3) 4) = Inr (Some (1, bytes ''abcd'')) \<and>
   fst (str_substring_n heap0 (Some (bytes ''abcdef'')) 10 2) = Inr (Some (1, []))"
  using str_substring_n_clamps [of heap0 4 "- 3" "bytes ''abcdef''"]
    str_substring_n_clamps [of heap0 2 10 "bytes ''abcdef''"]
  by (simp add: heap0_def INT_MAX_def bytes_def content_def fresh_def)

declare join_loop.simps [simp del]

lemma tokens_of_nonempty: "tokens_of d cs \<noteq> []"
  by (induction cs) simp_all

lemma length_tokens_of: "length (tokens_of d cs) = Suc (count_list cs d)"
  using tokens_of_nonempty [of d] 
  by (induction cs) (auto simp: Suc_pred' length_greater_0_conv)

lemma tokens_of_no_delimiter: "d \<notin> set cs \<Longrightarrow> tokens_of d cs = [cs]"
  by (induction cs) auto

lemma tokens_of_free: "tok \<in> set (tokens_of d cs) \<Longrightarrow> d \<notin> set tok"
proof (induction cs arbitrary: tok)
  case Nil
  then show ?case by simp
next
  case (Cons c cs)
  obtain t ts where ts: "tokens_of d cs = t # ts"
    using tokens_of_nonempty [of d cs] by (cases "tokens_of d cs") auto
  show ?case
    using Cons.prems Cons.IH [of t] Cons.IH [of tok] ts
    by (auto split: if_splits)
qed

lemma intercalate_Cons: "ts \<noteq> [] \<Longrightarrow> intercalate d (t # ts) = t @ d # intercalate d ts"
  by (cases ts) simp_all

lemma intercalate_tokens_of: "intercalate d (tokens_of d cs) = cs"
proof (induction cs)
  case Nil
  show ?case by simp
next
  case (Cons c cs)
  obtain t ts where ts: "tokens_of d cs = t # ts"
    using tokens_of_nonempty [of d cs] by (cases "tokens_of d cs") auto
  show ?case
    using Cons.IH ts tokens_of_nonempty [of d cs]
    by (cases ts) (auto simp: intercalate_Cons)
qed

lemma hd_tokens_of_leading: "tokens_of d (d # cs) = [] # tokens_of d cs"
  by simp

lemma last_tokens_of_trailing: "last (tokens_of d (cs @ [d])) = []"
proof (induction cs)
  case Nil
  show ?case by simp
next
  case (Cons c cs)
  have "length (tokens_of d (cs @ [d])) = Suc (Suc (count_list cs d))"
    by (simp add: length_tokens_of)
  then obtain t u ts where "tokens_of d (cs @ [d]) = t # u # ts"
    by (metis length_Suc_conv)
  with Cons.IH show ?case by simp
qed

lemma new_token_fail:
  "fails h (calls h) \<Longrightarrow> new_token ts n h = (None, h\<lparr>calls := Suc (calls h)\<rparr>)"
  by (simp add: new_token_def malloc_def)

lemma new_token_ok:
  "\<not> fails h (calls h) \<Longrightarrow>
   new_token ts n h =
     (Some (fresh (live h), take n ts),
      h\<lparr>calls := Suc (calls h), live := live h @ [(fresh (live h), Suc n)]\<rparr>)"
  by (simp add: new_token_def malloc_def)

lemma all_le_Suc_shift:
  "(\<forall>j \<le> Suc n. \<not> f (k + j)) \<longleftrightarrow> \<not> f k \<and> (\<forall>j \<le> n. \<not> f (Suc k + j))"
proof
  assume a: "\<forall>j \<le> Suc n. \<not> f (k + j)"
  have "\<not> f (k + 0)" using a by blast
  moreover have "\<not> f (Suc k + j)" if "j \<le> n" for j
    using a [rule_format, of "Suc j"] that by simp
  ultimately show "\<not> f k \<and> (\<forall>j \<le> n. \<not> f (Suc k + j))" by simp
next
  assume b: "\<not> f k \<and> (\<forall>j \<le> n. \<not> f (Suc k + j))"
  show "\<forall>j \<le> Suc n. \<not> f (k + j)"
  proof (intro allI impI)
    fix j assume "j \<le> Suc n"
    then show "\<not> f (k + j)"
      using b by (cases j) auto
  qed
qed

lemma split_loop_succeeds:
  "fst (split_loop d ptr ts result h) \<longleftrightarrow>
     (\<forall>j \<le> count_list (content ptr) d. \<not> fails h (calls h + j))"
proof (induction ptr arbitrary: ts result h)
  case Nil
  show ?case
    by (cases "fails h (calls h)") (simp_all add: new_token_fail new_token_ok)
next
  case (Cons c ptr)
  show ?case
  proof (cases "c = 0")
    case True
    then show ?thesis
      by (cases "fails h (calls h)") (simp_all add: new_token_fail new_token_ok content_Cons)
  next
    case nz: False
    show ?thesis
    proof (cases "c = d")
      case True
      show ?thesis
      proof (cases "fails h (calls h)")
        case True
        with \<open>c = d\<close> nz show ?thesis
          by (auto simp: new_token_fail content_Cons intro: exI [of _ 0])
      next
        case False
        with \<open>c = d\<close> nz show ?thesis
          by (simp add: new_token_ok content_Cons Cons.IH all_le_Suc_shift)
      qed
    next
      case False
      with nz show ?thesis
        by (simp add: content_Cons Cons.IH)
    qed
  qed
qed

lemma split_loop_tokens:
  "fst (split_loop d ptr (pre @ ptr) result h) \<Longrightarrow>
   map snd (fst (snd (split_loop d ptr (pre @ ptr) result h))) =
     map snd result @ (pre @ hd (tokens_of d (content ptr))) # tl (tokens_of d (content ptr))"
proof (induction ptr arbitrary: pre result h)
  case Nil
  then show ?case
    by (cases "fails h (calls h)") (simp_all add: new_token_fail new_token_ok)
next
  case (Cons c ptr)
  show ?case
  proof (cases "c = 0")
    case True
    with Cons.prems show ?thesis
      by (cases "fails h (calls h)") (simp_all add: new_token_fail new_token_ok content_Cons)
  next
    case nz: False
    show ?thesis
    proof (cases "c = d")
      case True
      show ?thesis
      proof (cases "fails h (calls h)")
        case True
        with \<open>c = d\<close> Cons.prems show ?thesis
          by (simp add: new_token_fail)
      next
        case False
        with \<open>c = d\<close> nz Cons.prems Cons.IH [of "[]"] tokens_of_nonempty [of d "content ptr"]
        show ?thesis
          by (simp add: new_token_ok content_Cons)
      qed
    next
      case False
      with nz Cons.prems Cons.IH [of "pre @ [c]" result h] show ?thesis
        by (simp add: content_Cons)
    qed
  qed
qed

lemma foldr_max_ge: "a \<in> set xs \<Longrightarrow> a \<le> foldr max xs (0 :: nat)"
  by (induction xs) (auto simp: max_def)

lemma fresh_not_live: "fresh bs \<notin> fst ` set bs"
proof
  assume "fresh bs \<in> fst ` set bs"
  then have "fresh bs \<in> set (map fst bs)" by simp
  then have "fresh bs \<le> foldr max (map fst bs) 0" by (rule foldr_max_ge)
  then show False by (simp add: fresh_def)
qed

lemma split_loop_heap:
  "split_loop d ptr ts result h = (ok, result', h') \<Longrightarrow>
   fails h' = fails h \<and>
   (\<exists>toks new. result' = result @ toks \<and> live h' = live h @ new \<and>
      fst ` set new = fst ` set toks \<and> fst ` set new \<inter> fst ` set (live h) = {} \<and>
      calls h' = calls h + length toks + (if ok then 0 else 1))"
proof (induction ptr arbitrary: ts result h)
  case Nil
  then show ?case
    using fresh_not_live [of "live h"]
    by (cases "fails h (calls h)") (auto simp: new_token_fail new_token_ok)
next
  case (Cons c ptr)
  show ?case
  proof (cases "c = d \<or> c = 0")
    case False
    with Cons.prems Cons.IH [of ts result h] show ?thesis by simp
  next
    case emit: True
    show ?thesis
    proof (cases "fails h (calls h)")
      case True
      with emit Cons.prems show ?thesis
        by (auto simp: new_token_fail)
    next
      case ok: False
      define a where "a = fresh (live h)"
      define n where "n = length ts - length (c # ptr)"
      define h1 where "h1 = h\<lparr>calls := Suc (calls h), live := live h @ [(a, Suc n)]\<rparr>"
      have tok: "new_token ts n h = (Some (a, take n ts), h1)"
        using ok by (simp add: new_token_ok a_def h1_def)
      have a_new: "a \<notin> fst ` set (live h)"
        unfolding a_def by (rule fresh_not_live)
      show ?thesis
      proof (cases "c = 0")
        case True
        with Cons.prems tok have "ok" "result' = result @ [(a, take n ts)]" "h' = h1"
          by (simp_all add: n_def)
        with a_new show ?thesis
          by (auto simp: h1_def)
      next
        case False
        with emit Cons.prems tok
        have rec: "split_loop d ptr ptr (result @ [(a, take n ts)]) h1 = (ok, result', h')"
          by (simp add: n_def)
        from Cons.IH [OF rec] obtain toks new where
          f: "fails h' = fails h1" and r: "result' = (result @ [(a, take n ts)]) @ toks" and
          l: "live h' = live h1 @ new" and s: "fst ` set new = fst ` set toks" and
          i: "fst ` set new \<inter> fst ` set (live h1) = {}" and
          c: "calls h' = calls h1 + length toks + (if ok then 0 else 1)"
          by blast
        have "result' = result @ ((a, take n ts) # toks)"
          using r by simp
        moreover have "live h' = live h @ ((a, Suc n) # new)"
          using l by (simp add: h1_def)
        moreover have "fst ` set ((a, Suc n) # new) = fst ` set ((a, take n ts) # toks)"
          using s by simp
        moreover have "fst ` set ((a, Suc n) # new) \<inter> fst ` set (live h) = {}"
          using i a_new by (auto simp: h1_def)
        moreover have "calls h' = calls h + length ((a, take n ts) # toks) + (if ok then 0 else 1)"
          using c by (simp add: h1_def)
        moreover have "fails h' = fails h"
          using f by (simp add: h1_def)
        ultimately show ?thesis by blast
      qed
    qed
  qed
qed

lemma free_tokens_heap:
  "live (free_tokens toks h) = filter (\<lambda>b. fst b \<notin> fst ` set toks) (live h) \<and>
   fails (free_tokens toks h) = fails h \<and> calls (free_tokens toks h) = calls h"
  by (induction toks arbitrary: h) (auto simp: free_def intro: filter_cong)

lemma filter_released:
  assumes "fst ` set new \<subseteq> A" and "A \<inter> fst ` set old = {}"
  shows "filter (\<lambda>b. fst b \<notin> A) (old @ new) = old"
proof -
  have "filter (\<lambda>b. fst b \<notin> A) old = old"
    using assms(2) by (intro filter_True) auto
  moreover have "filter (\<lambda>b. fst b \<notin> A) new = []"
    using assms(1) by (intro filter_False) auto
  ultimately show ?thesis by simp
qed

lemma filter_insert_released:
  "filter (\<lambda>b. fst b \<noteq> r) (filter (\<lambda>b. fst b \<notin> S) xs) =
     filter (\<lambda>b. fst b \<notin> insert r S) xs"
  by (induction xs) auto

lemma str_split_fail:
  assumes "\<exists>j \<le> Suc (count_list (content t) d). fails h (calls h + j)"
  shows "fst (str_split h (Some t) d) = None \<and>
         live (snd (str_split h (Some t) d)) = live h \<and>
         fails (snd (str_split h (Some t) d)) = fails h"
proof (cases "fails h (calls h)")
  case True
  then show ?thesis
    by (simp add: str_split_def malloc_def)
next
  case False
  define r where "r = fresh (live h)"
  define sz where "sz = sizeof_ptr * nat (count_tokens d t 1 + 1)"
  define h1 where "h1 = h\<lparr>calls := Suc (calls h), live := live h @ [(r, sz)]\<rparr>"
  have arr: "malloc sz h = (Some r, h1)"
    using False by (simp add: malloc_def r_def h1_def)
  have "\<not> (\<forall>j \<le> count_list (content t) d. \<not> fails h1 (calls h1 + j))"
    using assms False all_le_Suc_shift [of "count_list (content t) d" "fails h" "calls h"]
    by (auto simp: h1_def)
  then have nok: "\<not> fst (split_loop d t t [] h1)"
    by (simp add: split_loop_succeeds)
  obtain ok toks h2 where loop: "split_loop d t t [] h1 = (ok, toks, h2)"
    by (cases "split_loop d t t [] h1") auto
  with nok have "\<not> ok" by simp
  from split_loop_heap [OF loop] obtain new where
    f: "fails h2 = fails h1" and l: "live h2 = live h1 @ new" and
    s: "fst ` set new = fst ` set toks" and i: "fst ` set new \<inter> fst ` set (live h1) = {}"
    by auto
  have res: "str_split h (Some t) d = (None, free r (free_tokens toks h2))"
    using arr loop \<open>\<not> ok\<close> by (simp add: str_split_def sz_def)
  have "live (free r (free_tokens toks h2)) =
      filter (\<lambda>b. fst b \<notin> insert r (fst ` set toks)) (live h @ ((r, sz) # new))"
    using l by (simp add: free_def free_tokens_heap h1_def filter_insert_released
        del: filter_filter filter_append)
  also have "\<dots> = live h"
  proof (rule filter_released)
    show "fst ` set ((r, sz) # new) \<subseteq> insert r (fst ` set toks)"
      using s by auto
    show "insert r (fst ` set toks) \<inter> fst ` set (live h) = {}"
      using i s fresh_not_live [of "live h"] by (auto simp: h1_def r_def)
  qed
  finally have "live (free r (free_tokens toks h2)) = live h" .
  moreover have "fails (free r (free_tokens toks h2)) = fails h"
    using f by (simp add: free_def free_tokens_heap h1_def)
  ultimately show ?thesis
    using res by simp
qed

lemma str_split_ok:
  assumes "\<forall>j \<le> Suc (count_list (content t) d). \<not> fails h (calls h + j)"
  shows "\<exists>arr toks h1. str_split h (Some t) d = (Some (arr, toks), h1) \<and>
           map snd toks = tokens_of d (content t) \<and> fails h1 = fails h \<and>
           calls h1 = calls h + Suc (Suc (count_list (content t) d))"
proof -
  define r where "r = fresh (live h)"
  define sz where "sz = sizeof_ptr * nat (count_tokens d t 1 + 1)"
  define h1 where "h1 = h\<lparr>calls := Suc (calls h), live := live h @ [(r, sz)]\<rparr>"
  from assms have first: "\<not> fails h (calls h)" and
    rest: "\<forall>j \<le> count_list (content t) d. \<not> fails h1 (calls h1 + j)"
    using all_le_Suc_shift [of "count_list (content t) d" "fails h" "calls h"]
    by (simp_all add: h1_def)
  have arr: "malloc sz h = (Some r, h1)"
    using first by (simp add: malloc_def r_def h1_def)
  from rest have yes: "fst (split_loop d t t [] h1)"
    by (simp add: split_loop_succeeds)
  obtain ok toks h2 where loop: "split_loop d t t [] h1 = (ok, toks, h2)"
    by (cases "split_loop d t t [] h1") auto
  with yes have "ok" by simp
  have toks: "map snd toks = tokens_of d (content t)"
    using split_loop_tokens [of d t "[]" "[]" h1] yes loop tokens_of_nonempty [of d "content t"]
    by simp
  from split_loop_heap [OF loop] \<open>ok\<close>
  have f: "fails h2 = fails h1" and c: "calls h2 = calls h1 + length toks"
    by auto
  have "length toks = Suc (count_list (content t) d)"
    using toks length_tokens_of [of d "content t"] by (metis length_map)
  with c have "calls h2 = calls h + Suc (Suc (count_list (content t) d))"
    by (simp add: h1_def)
  moreover have "str_split h (Some t) d = (Some (r, toks), h2)"
    using arr loop \<open>ok\<close> by (simp add: str_split_def sz_def)
  moreover have "fails h2 = fails h"
    using f by (simp add: h1_def)
  ultimately show ?thesis
    using toks by blast
qed

lemma join_count_sum:
  "join_count arr total_len count =
     (total_len + sum_list (map (\<lambda>p. int (length (content p))) arr), count + int (length arr))"
  by (induction arr arbitrary: total_len count) (simp_all add: str_len_Some)

lemma intercalate_step:
  "intercalate sep (t # ts) = t @ (if ts \<noteq> [] then [sep] else []) @ intercalate sep ts"
  by (cases ts) simp_all

lemma join_loop_intercalate:
  "i \<le> length arr \<Longrightarrow>
   join_loop arr sep (int i) (int (length arr)) = intercalate sep (map content (drop i arr))"
proof (induction "length arr - i" arbitrary: i)
  case 0
  then show ?case
    by (simp add: join_loop.simps)
next
  case (Suc n)
  then have lt: "i < length arr" and n: "n = length arr - Suc i" by linarith+
  have step: "join_loop arr sep (int i + 1) (int (length arr)) =
      intercalate sep (map content (drop (Suc i) arr))"
    using Suc.hyps(1) [of "Suc i"] n lt by (simp add: add.commute)
  have unfold: "join_loop arr sep (int i) (int (length arr)) =
      content (arr ! i) @ (if Suc i < length arr then [sep] else [])
        @ join_loop arr sep (int i + 1) (int (length arr))"
    using lt
    by (subst join_loop.simps) (auto simp: str_len_Some take_content Let_def)
  have "content (arr ! i) @ (if Suc i < length arr then [sep] else [])
        @ intercalate sep (map content (drop (Suc i) arr)) =
      intercalate sep (map content (arr ! i # drop (Suc i) arr))"
    by (simp add: intercalate_step)
  also have "arr ! i # drop (Suc i) arr = drop i arr"
    using lt by (rule Cons_nth_drop_Suc)
  finally show ?case
    unfolding unfold step .
qed

lemma str_join_n_ok:
  assumes "\<not> fails h (calls h)"
  shows "fst (str_join_n h (Some arr) sep) =
           Some (fresh (live h), intercalate sep (map content arr))"
proof (cases "arr = []")
  case True
  with assms show ?thesis
    by (simp add: str_join_n_def malloc_def)
next
  case False
  then have "int (length arr) \<noteq> 0" by simp
  with assms show ?thesis
    using join_loop_intercalate [of 0 arr sep]
    by (simp add: str_join_n_def join_count_sum malloc_def)
qed

lemma tokens_of_subset: "tok \<in> set (tokens_of d cs) \<Longrightarrow> set tok \<subseteq> set cs"
proof (induction cs arbitrary: tok)
  case Nil
  then show ?case by simp
next
  case (Cons c cs)
  obtain t ts where ts: "tokens_of d cs = t # ts"
    using tokens_of_nonempty [of d cs] by (cases "tokens_of d cs") auto
  show ?case
    using Cons.prems Cons.IH [of t] Cons.IH [of tok] ts
    by (auto split: if_splits)
qed

lemma map_content_tokens_of:
  "map content (tokens_of d (content t)) = tokens_of d (content t)"
proof (rule map_idI)
  fix tok assume "tok \<in> set (tokens_of d (content t))"
  then have "set tok \<subseteq> set (content t)" by (rule tokens_of_subset)
  then have "0 \<notin> set tok" using zero_notin_content [of t] by auto
  then show "content tok = tok" by (rule content_id)
qed

declare skip_whitespace.simps [simp del] back_whitespace.simps [simp del]
  shift_down.simps [simp del]

lemma deref_content: "i < length (content s) \<Longrightarrow> deref s i = content s ! i"
  using length_content_le [of s] by (simp add: deref_def content_nth)

lemma deref_end: "deref s (length (content s)) = 0"
proof (cases "length (content s) < length s")
  case True
  then have "\<not> (s ! length (content s) \<noteq> 0)"
    unfolding content_def by (rule nth_length_takeWhile)
  with True show ?thesis by (simp add: deref_def)
next
  case False
  then show ?thesis by (simp add: deref_def)
qed

lemma skip_whitespace_takeWhile:
  "start \<le> length (content s) \<Longrightarrow>
   skip_whitespace s start =
     start + length (takeWhile is_whitespace (drop start (content s)))"
proof (induction s start rule: skip_whitespace.induct)
  case (1 s start)
  show ?case
  proof (cases "start < length (content s)")
    case False
    with "1.prems" have "start = length (content s)" by simp
    then show ?thesis
      by (subst skip_whitespace.simps) (simp add: deref_end)
  next
    case True
    then have d: "deref s start = content s ! start" and nz: "content s ! start \<noteq> 0"
      by (simp_all add: deref_content content_nth_nonzero)
    have split: "drop start (content s) = content s ! start # drop (Suc start) (content s)"
      using True by (simp add: Cons_nth_drop_Suc)
    show ?thesis
    proof (cases "is_whitespace (content s ! start)")
      case ws: True
      have "skip_whitespace s start = skip_whitespace s (start + 1)"
        using ws d nz by (subst skip_whitespace.simps) simp
      also have "\<dots> = start + 1 + length (takeWhile is_whitespace (drop (start + 1) (content s)))"
        using "1.IH" ws d nz True by simp
      finally show ?thesis
        using ws by (simp add: split)
    next
      case False
      then show ?thesis
        using d by (subst skip_whitespace.simps) (simp add: split)
    qed
  qed
qed

lemma back_whitespace_takeWhile:
  "start \<le> e \<Longrightarrow> e < length (content s) \<Longrightarrow> \<not> is_whitespace (content s ! start) \<Longrightarrow>
   back_whitespace s start e =
     e - length (takeWhile is_whitespace (rev (take (Suc e) (content s))))"
proof (induction s start e rule: back_whitespace.induct)
  case (1 s start e)
  have d: "deref s e = content s ! e"
    using "1.prems" by (simp add: deref_content)
  have split: "rev (take (Suc e) (content s)) = content s ! e # rev (take e (content s))"
    using "1.prems" by (simp add: take_Suc_conv_app_nth)
  show ?case
  proof (cases "is_whitespace (content s ! e)")
    case False
    then show ?thesis
      using d by (subst back_whitespace.simps) (simp add: split)
  next
    case ws: True
    with "1.prems" have gt: "start < e"
      by (cases "start = e") auto
    have "back_whitespace s start e = back_whitespace s start (e - 1)"
      using ws d gt by (subst back_whitespace.simps) simp
    also have "\<dots> = (e - 1) - length (takeWhile is_whitespace (rev (take (Suc (e - 1)) (content s))))"
      using "1.IH" ws d gt "1.prems" by simp
    finally show ?thesis
      using ws gt by (simp add: split)
  qed
qed

lemma content_update_zero:
  "i \<le> length (content s) \<Longrightarrow> content (s[i := 0]) = take i (content s)"
proof (induction s arbitrary: i)
  case Nil
  then show ?case by simp
next
  case (Cons x xs)
  show ?case
  proof (cases i)
    case 0
    then show ?thesis by (simp add: content_Cons)
  next
    case (Suc j)
    with Cons.prems have "x \<noteq> 0" "j \<le> length (content xs)"
      by (auto simp: content_Cons split: if_splits)
    with Suc Cons.IH [of j] show ?thesis
      by (simp add: content_Cons)
  qed
qed

lemma content_drop:
  "i \<le> length (content s) \<Longrightarrow> content (drop i s) = drop i (content s)"
proof (induction s arbitrary: i)
  case Nil
  then show ?case by simp
next
  case (Cons x xs)
  show ?case
  proof (cases i)
    case 0
    then show ?thesis by simp
  next
    case (Suc j)
    with Cons.prems have "x \<noteq> 0" "j \<le> length (content xs)"
      by (auto simp: content_Cons split: if_splits)
    with Suc Cons.IH [of j] show ?thesis
      by (simp add: content_Cons)
  qed
qed

lemma content_append_zero: "0 \<notin> set xs \<Longrightarrow> content (xs @ 0 # ys) = xs"
  by (induction xs) (simp_all add: content_Cons)

lemma shift_down_buffer:
  "dest < start \<Longrightarrow> start \<le> length s \<Longrightarrow>
   shift_down s dest start =
     take dest s @ content (drop start s) @ [0]
       @ drop (dest + Suc (length (content (drop start s)))) s"
proof (induction s dest start rule: shift_down.induct)
  case (1 s dest start)
  show ?case
  proof (cases "deref s start = 0")
    case True
    have "content (drop start s) = []"
    proof (cases "start < length s")
      case True
      with \<open>deref s start = 0\<close> have "s ! start = 0" by (simp add: deref_def)
      with True show ?thesis
        by (simp add: Cons_nth_drop_Suc [symmetric] content_Cons)
    next
      case False
      then show ?thesis by simp
    qed
    moreover have "s[dest := 0] = take dest s @ [0] @ drop (Suc dest) s"
      using "1.prems" by (simp add: upd_conv_take_nth_drop)
    ultimately show ?thesis
      using \<open>deref s start = 0\<close> by (subst shift_down.simps) simp
  next
    case False
    define c where "c = deref s start"
    from False have lt: "start < length s" and c: "s ! start = c" and nz: "c \<noteq> 0"
      by (auto simp: deref_def c_def split: if_splits)
    define s1 where "s1 = s[dest := c]"
    have dr: "drop (Suc start) s1 = drop (Suc start) s"
      using "1.prems" by (simp add: s1_def)
    have cont: "content (drop start s) = c # content (drop (Suc start) s)"
      using lt c nz by (simp add: Cons_nth_drop_Suc [symmetric] content_Cons)
    have "shift_down s dest start = shift_down s1 (dest + 1) (start + 1)"
      using False by (subst shift_down.simps) (simp add: s1_def c_def)
    also have "\<dots> = take (dest + 1) s1 @ content (drop (start + 1) s1) @ [0]
        @ drop (dest + 1 + Suc (length (content (drop (start + 1) s1)))) s1"
      using "1.IH" False "1.prems" lt by (simp add: s1_def c_def)
    also have "take (dest + 1) s1 = take dest s @ [c]"
      using "1.prems" lt by (simp add: s1_def take_Suc_conv_app_nth)
    also have "drop (dest + 1 + Suc (length (content (drop (start + 1) s1)))) s1 =
        drop (dest + Suc (length (content (drop start s)))) s"
      using dr by (simp add: cont s1_def)
    finally show ?thesis
      using dr by (simp add: cont)
  qed
qed

lemma content_shift_down:
  assumes "0 < start" "start \<le> length (content s)"
  shows "content (shift_down s 0 start) = drop start (content s)"
proof -
  have "start \<le> length s"
    using assms(2) length_content_le [of s] by linarith
  with assms(1) have "shift_down s 0 start =
      content (drop start s) @ 0 # drop (Suc (length (content (drop start s)))) s"
    by (simp add: shift_down_buffer)
  then have "content (shift_down s 0 start) = content (drop start s)"
    by (simp add: content_append_zero zero_notin_content)
  with assms(2) show ?thesis
    by (simp add: content_drop)
qed

lemma rev_dropWhile_rev:
  "rev (dropWhile P (rev xs)) = take (length xs - length (takeWhile P (rev xs))) xs"
proof -
  have "dropWhile P (rev xs) = drop (length (takeWhile P (rev xs))) (rev xs)"
    by (rule dropWhile_eq_drop)
  then show ?thesis
    by (simp add: rev_drop)
qed

lemma leading_before_trailing:
  assumes "length (takeWhile P xs) < length xs"
  shows "length (takeWhile P xs) < length xs - length (takeWhile P (rev xs))"
proof (rule ccontr)
  define a where "a = length (takeWhile P xs)"
  define k where "k = length (takeWhile P (rev xs))"
  assume "\<not> length (takeWhile P xs) < length xs - length (takeWhile P (rev xs))"
  then have ge: "length xs - k \<le> a" by (simp add: a_def k_def)
  have lt: "a < length xs" using assms by (simp add: a_def)
  define j where "j = length xs - Suc a"
  have jk: "j < k" using ge lt by (simp add: j_def)
  have "k \<le> length xs"
    unfolding k_def using length_takeWhile_le [of P "rev xs"] by simp
  have "takeWhile P (rev xs) ! j \<in> set (takeWhile P (rev xs))"
    using jk by (simp add: k_def)
  then have "P (takeWhile P (rev xs) ! j)"
    by (rule set_takeWhileD [THEN conjunct2])
  moreover have "takeWhile P (rev xs) ! j = rev xs ! j"
    using jk by (simp add: k_def takeWhile_nth)
  moreover have "rev xs ! j = xs ! a"
    using lt by (simp add: j_def rev_nth)
  moreover have "\<not> P (xs ! a)"
    unfolding a_def using assms by (rule nth_length_takeWhile)
  ultimately show False by simp
qed

lemma takeWhile_take_beyond:
  "length (takeWhile P xs) < n \<Longrightarrow> takeWhile P (take n xs) = takeWhile P xs"
proof (induction xs arbitrary: n)
  case Nil
  show ?case by simp
next
  case (Cons x xs)
  then show ?case by (cases n) auto
qed

lemma trim_both_spec_cut:
  "trim_both_spec t =
     drop (length (takeWhile is_whitespace t))
       (take (length t - length (takeWhile is_whitespace (rev t))) t)"
proof -
  define a where "a = length (takeWhile is_whitespace t)"
  define k where "k = length (takeWhile is_whitespace (rev t))"
  have ws: "(\<lambda>c. c \<in> whitespace_units) = is_whitespace"
    by (simp add: is_whitespace_units fun_eq_iff)
  have spec: "trim_both_spec t = dropWhile is_whitespace (take (length t - k) t)"
    by (simp add: trim_both_spec_def ws rev_dropWhile_rev k_def)
  show ?thesis
  proof (cases "a < length t")
    case True
    then have "a < length t - k"
      unfolding a_def k_def by (rule leading_before_trailing)
    then have "takeWhile is_whitespace (take (length t - k) t) = takeWhile is_whitespace t"
      unfolding a_def by (rule takeWhile_take_beyond)
    then have "dropWhile is_whitespace (take (length t - k) t) = drop a (take (length t - k) t)"
      using dropWhile_eq_drop [of is_whitespace "take (length t - k) t"] by (simp add: a_def)
    with spec show ?thesis by (simp add: a_def k_def)
  next
    case False
    then have all: "takeWhile is_whitespace t = t"
      using length_takeWhile_le [of is_whitespace t] takeWhile_eq_take [of is_whitespace t]
      by (simp add: a_def)
    then have "\<forall>c \<in> set t. is_whitespace c"
      by (metis set_takeWhileD)
    then have "dropWhile is_whitespace (take (length t - k) t) = []"
      by (auto dest: in_set_takeD)
    with spec False show ?thesis by (simp add: a_def)
  qed
qed

lemma trim_both_spec_no_edge: "no_edge_whitespace (trim_both_spec t)"
proof (cases "trim_both_spec t = []")
  case True
  then show ?thesis by (simp add: no_edge_whitespace_def)
next
  case False
  define P where "P = (\<lambda>c :: cchar. c \<in> whitespace_units)"
  define ys where "ys = rev (dropWhile P (rev t))"
  have r: "trim_both_spec t = dropWhile P ys"
    by (simp add: trim_both_spec_def P_def ys_def)
  with False have ne: "dropWhile P ys \<noteq> []" by simp
  then have "\<not> P (hd (dropWhile P ys))"
    by (rule hd_dropWhile)
  moreover have "last (dropWhile P ys) = last ys"
    using ne by (metis dropWhile_eq_Nil_conv dropWhile_last)
  moreover have "ys \<noteq> []" using ne by auto
  then have "dropWhile P (rev t) \<noteq> []" by (simp add: ys_def)
  then have "\<not> P (hd (dropWhile P (rev t)))"
    by (rule hd_dropWhile)
  then have "\<not> P (last ys)"
    using \<open>dropWhile P (rev t) \<noteq> []\<close> by (simp add: ys_def last_rev)
  ultimately show ?thesis
    by (simp add: no_edge_whitespace_def r P_def)
qed

lemma trim_both_spec_fixed: "no_edge_whitespace t \<Longrightarrow> trim_both_spec t = t"
proof (cases "t = []")
  case True
  then show ?thesis by (simp add: trim_both_spec_def)
next
  case False
  assume "no_edge_whitespace t"
  with False have h: "hd t \<notin> whitespace_units" and l: "last t \<notin> whitespace_units"
    by (simp_all add: no_edge_whitespace_def)
  have "dropWhile (\<lambda>c. c \<in> whitespace_units) (rev t) = rev t"
    using False l by (cases "rev t") (auto simp: last_rev [symmetric] hd_rev)
  moreover have "dropWhile (\<lambda>c. c \<in> whitespace_units) t = t"
    using False h by (cases t) auto
  ultimately show ?thesis
    by (simp add: trim_both_spec_def)
qed

lemma trim_both_spec_idem: "trim_both_spec (trim_both_spec t) = trim_both_spec t"
  by (rule trim_both_spec_fixed) (rule trim_both_spec_no_edge)

lemma trim_both_spec_blank: "set t \<subseteq> whitespace_units \<Longrightarrow> trim_both_spec t = []"
proof -
  assume "set t \<subseteq> whitespace_units"
  then have "\<forall>c \<in> set (rev t). c \<in> whitespace_units"
    by auto
  then have "dropWhile (\<lambda>c. c \<in> whitespace_units) (rev t) = []"
    by (rule dropWhile_eq_Nil_conv [THEN iffD2])
  then show ?thesis
    unfolding trim_both_spec_def by (simp only: rev.simps dropWhile.simps)
qed

lemma trim_both_spec_middle:
  "\<exists>pre post. t = pre @ trim_both_spec t @ post \<and>
     set pre \<subseteq> whitespace_units \<and> set post \<subseteq> whitespace_units"
proof -
  define P where "P = (\<lambda>c :: cchar. c \<in> whitespace_units)"
  define ys where "ys = rev (dropWhile P (rev t))"
  have "rev (takeWhile P (rev t) @ dropWhile P (rev t)) = rev (rev t)"
    by (simp only: takeWhile_dropWhile_id)
  then have t: "t = ys @ rev (takeWhile P (rev t))"
    by (simp only: rev_append rev_rev_ident ys_def)
  have mid: "ys = takeWhile P ys @ trim_both_spec t"
    by (simp add: trim_both_spec_def P_def ys_def)
  have "t = takeWhile P ys @ trim_both_spec t @ rev (takeWhile P (rev t))"
    by (metis append_assoc mid t)
  moreover have "set (takeWhile P ys) \<subseteq> whitespace_units"
    by (auto simp: P_def dest: set_takeWhileD)
  moreover have "set (rev (takeWhile P (rev t))) \<subseteq> whitespace_units"
    by (auto simp: P_def dest: set_takeWhileD)
  ultimately show ?thesis by blast
qed

lemma trim_scan:
  fixes s :: buffer
  defines "c \<equiv> content s"
  defines "a \<equiv> length (takeWhile is_whitespace c)"
  defines "k \<equiv> length (takeWhile is_whitespace (rev c))"
  shows "skip_whitespace s 0 = a"
    and "a \<le> length c"
    and "deref s a = 0 \<longleftrightarrow> a = length c"
    and "a < length c \<Longrightarrow>
           Suc (back_whitespace s a (nat (str_len (Some s) - 1))) = length c - k \<and>
           a < length c - k"
proof -
  show a: "skip_whitespace s 0 = a"
    using skip_whitespace_takeWhile [of 0 s] by (simp add: a_def c_def)
  show le: "a \<le> length c"
    unfolding a_def by (rule length_takeWhile_le)
  show "deref s a = 0 \<longleftrightarrow> a = length c"
  proof (cases "a < length c")
    case True
    then show ?thesis
      using deref_content [of a s] content_nth_nonzero [of a s] by (simp add: c_def)
  next
    case False
    with le have "a = length c" by simp
    then show ?thesis by (simp add: c_def deref_end)
  qed
  show "Suc (back_whitespace s a (nat (str_len (Some s) - 1))) = length c - k \<and>
      a < length c - k" if lt: "a < length c"
  proof -
    have nws: "\<not> is_whitespace (c ! a)"
      using lt unfolding a_def by (rule nth_length_takeWhile)
    have ak: "a < length c - k"
      using lt unfolding a_def k_def by (rule leading_before_trailing)
    have "back_whitespace s a (length c - 1) =
        (length c - 1) - length (takeWhile is_whitespace (rev (take (Suc (length c - 1)) c)))"
      using lt nws back_whitespace_takeWhile [of a "length c - 1" s] by (simp add: c_def)
    also have "Suc (length c - 1) = length c"
      using lt by simp
    finally have "back_whitespace s a (length c - 1) = length c - 1 - k"
      by (simp add: k_def)
    moreover have "nat (str_len (Some s) - 1) = length c - 1"
      by (simp add: str_len_Some c_def)
    ultimately show ?thesis
      using ak by simp
  qed
qed

lemma str_trim_content:
  "\<exists>b. str_trim (Some s) = Some b \<and> content b = trim_both_spec (content s)"
proof -
  define c where "c = content s"
  define a where "a = length (takeWhile is_whitespace c)"
  define k where "k = length (takeWhile is_whitespace (rev c))"
  note scan = trim_scan [of s, folded c_def, folded a_def k_def]
  have spec: "trim_both_spec c = drop a (take (length c - k) c)"
    by (simp add: trim_both_spec_cut a_def k_def)
  show ?thesis
  proof (cases "a < length c")
    case False
    with scan(2) have "a = length c" by simp
    then have "str_trim (Some s) = Some (s[0 := 0])"
      using scan(1) scan(3) by (simp add: str_trim_def)
    moreover have "content (s[0 := 0]) = []"
      by (simp add: content_update_zero)
    moreover have "trim_both_spec c = []"
      using \<open>a = length c\<close> by (simp add: spec)
    ultimately show ?thesis by (simp add: c_def)
  next
    case True
    define e where "e = back_whitespace s a (nat (str_len (Some s) - 1))"
    from scan(4) [OF True] have e: "Suc e = length c - k" and ak: "a < length c - k"
      by (simp_all add: e_def)
    define s' where "s' = s[e + 1 := 0]"
    have cs': "content s' = take (length c - k) c"
      using e content_update_zero [of "Suc e" s] by (simp add: s'_def c_def)
    have nz: "deref s a \<noteq> 0"
      using True scan(3) by simp
    show ?thesis
    proof (cases "0 < a")
      case False
      then have "str_trim (Some s) = Some s'"
        using scan(1) nz by (simp add: str_trim_def Let_def e_def s'_def)
      with False cs' spec show ?thesis by (simp add: c_def)
    next
      case pos: True
      then have "str_trim (Some s) = Some (shift_down s' 0 a)"
        using scan(1) nz by (simp add: str_trim_def Let_def e_def s'_def)
      moreover have "content (shift_down s' 0 a) = drop a (content s')"
        using pos ak by (intro content_shift_down) (simp_all add: cs')
      ultimately show ?thesis
        using cs' spec by (simp add: c_def)
    qed
  qed
qed

lemma str_trim_n_result:
  "fst (str_trim_n h (Some s)) =
     (if fails h (calls h) then None
      else Some (fresh (live h), trim_both_spec (content s)))"
proof -
  define c where "c = content s"
  define a where "a = length (takeWhile is_whitespace c)"
  define k where "k = length (takeWhile is_whitespace (rev c))"
  note scan = trim_scan [of s, folded c_def, folded a_def k_def]
  have spec: "trim_both_spec c = drop a (take (length c - k) c)"
    by (simp add: trim_both_spec_cut a_def k_def)
  show ?thesis
  proof (cases "a < length c")
    case False
    with scan(2) have "a = length c" by simp
    then show ?thesis
      using scan(1) scan(3) spec by (simp add: str_trim_n_def malloc_def c_def)
  next
    case True
    define e where "e = back_whitespace s a (nat (str_len (Some s) - 1))"
    from scan(4) [OF True] have e: "Suc e = length c - k" and ak: "a < length c - k"
      by (simp_all add: e_def)
    have nz: "deref s a \<noteq> 0"
      using True scan(3) by simp
    have n: "nat (int e - int a + 1) = length c - k - a"
      using e ak by linarith
    have "take (length c - k - a) (drop a s) = take (length c - k - a) (drop a c)"
      using ak unfolding c_def by (intro take_drop_content) simp
    also have "\<dots> = trim_both_spec c"
      by (simp add: spec drop_take)
    finally have "take (nat (int e - int a + 1)) (drop a s) = trim_both_spec c"
      by (simp only: n)
    then show ?thesis
      using scan(1) nz by (simp add: str_trim_n_def malloc_def Let_def e_def c_def)
  qed
qed

lemma update_deref_id: "deref s i = 0 \<Longrightarrow> s[i := 0] = s"
  by (cases "i < length s") (auto simp: deref_def list_update_same_conv list_update_beyond)

lemma str_trim_fixed:
  assumes "no_edge_whitespace (content b)"
  shows "str_trim (Some b) = Some b"
proof -
  define c where "c = content b"
  define a where "a = length (takeWhile is_whitespace c)"
  define k where "k = length (takeWhile is_whitespace (rev c))"
  note scan = trim_scan [of b, folded c_def, folded a_def k_def]
  show ?thesis
  proof (cases "c = []")
    case True
    then have "a = 0" by (simp add: a_def)
    with True scan(1) scan(3) have "skip_whitespace b 0 = 0" "deref b 0 = 0"
      by simp_all
    then show ?thesis
      by (simp add: str_trim_def update_deref_id)
  next
    case False
    with assms have h: "\<not> is_whitespace (hd c)" and l: "\<not> is_whitespace (last c)"
      by (simp_all add: no_edge_whitespace_def c_def is_whitespace_units)
    have "a = 0"
      using False h by (cases c) (simp_all add: a_def)
    have "k = 0"
      using False l by (cases "rev c") (auto simp: k_def last_rev [symmetric] hd_rev)
    have lt: "a < length c"
      using False \<open>a = 0\<close> by simp
    from scan(4) [OF lt] have e: "Suc (back_whitespace b 0 (nat (str_len (Some b) - 1))) = length c"
      using \<open>a = 0\<close> \<open>k = 0\<close> by simp
    have nz: "deref b 0 \<noteq> 0"
      using scan(3) lt \<open>a = 0\<close> by simp
    have "b[length c := 0] = b"
      unfolding c_def by (rule update_deref_id) (rule deref_end)
    then show ?thesis
      using scan(1) \<open>a = 0\<close> nz e by (simp add: str_trim_def Let_def)
  qed
qed

section \<open>Claims\<close>

text \<open>
  Claim C1: when its allocations succeed, \<open>str_split\<close> produces the tokens of the text in
  order, one more than the delimiter occurs in it: joined with the delimiter they give
  the text back, and none of them contains the delimiter. A text without the delimiter,
  the empty text included, gives the single token that is the whole text; a leading or a
  trailing delimiter gives an empty token at that end.
\<close>

theorem str_split_tokens:
  assumes "\<forall>j \<le> Suc (count_list (content t) d). \<not> fails h (calls h + j)"
  shows "\<exists>toks. token_list (str_split h (Some t) d) = Some toks \<and>
           length toks = count_list (content t) d + 1 \<and>
           intercalate d toks = content t \<and>
           (\<forall>tok \<in> set toks. d \<notin> set tok) \<and>
           (d \<notin> set (content t) \<longrightarrow> toks = [content t]) \<and>
           (\<forall>cs. content t = d # cs \<longrightarrow> hd toks = []) \<and>
           (\<forall>cs. content t = cs @ [d] \<longrightarrow> last toks = []) \<and>
           toks = tokens_of d (content t)"
proof -
  from str_split_ok [OF assms] obtain arr toks h1 where
    "str_split h (Some t) d = (Some (arr, toks), h1)" "map snd toks = tokens_of d (content t)"
    by blast
  then have "token_list (str_split h (Some t) d) = Some (tokens_of d (content t))"
    by (simp add: token_list_def)
  moreover have "\<forall>cs. content t = d # cs \<longrightarrow> hd (tokens_of d (content t)) = []"
    by simp
  moreover have "\<forall>cs. content t = cs @ [d] \<longrightarrow> last (tokens_of d (content t)) = []"
    by (simp add: last_tokens_of_trailing)
  ultimately show ?thesis
    using length_tokens_of [of d "content t"] intercalate_tokens_of [of d "content t"]
      tokens_of_free [of _ d "content t"] tokens_of_no_delimiter [of d "content t"]
    by auto
qed

text \<open>
  The scenario of claim C1: \<open>Hello, World!\<close> split at the comma gives \<open>Hello\<close> and
  \<open> World!\<close>, the second with its leading space. The empty text gives one empty token,
  and \<open>,a,\<close> gives an empty token on either side of \<open>a\<close>.
\<close>

theorem str_split_tokens_witness:
  "token_list (str_split heap0 (Some (bytes ''Hello, World!'')) (of_char CHR '','')) =
     Some [bytes ''Hello'', bytes '' World!''] \<and>
   token_list (str_split heap0 (Some []) (of_char CHR '','')) = Some [[]] \<and>
   token_list (str_split heap0 (Some (bytes '',a,'')) (of_char CHR '','')) =
     Some [[], bytes ''a'', []]"
  using str_split_tokens [of "bytes ''Hello, World!''" "of_char CHR '',''" heap0]
    str_split_tokens [of "[]" "of_char CHR '',''" heap0]
    str_split_tokens [of "bytes '',a,''" "of_char CHR '',''" heap0]
  by (simp add: heap0_def bytes_def content_def)

text \<open>
  Claim C2: when one of the allocations of \<open>str_split\<close> fails (the array, or one of the
  tokens), the call returns \<open>NULL\<close> and the heap holds the blocks it held before: the
  tokens allocated up to the failure and the array have been freed.
\<close>

theorem str_split_all_or_nothing:
  assumes "\<exists>j \<le> Suc (count_list (content t) d). fails h (calls h + j)"
  shows "fst (str_split h (Some t) d) = None \<and>
         live (snd (str_split h (Some t) d)) = live h"
  using str_split_fail [OF assms] by simp

text \<open>
  The third allocation fails while \<open>a,b,c\<close> is split: the array and the first token had
  been allocated, and both are freed.
\<close>

theorem str_split_all_or_nothing_witness:
  "fails (fails_at 2) (calls (fails_at 2) + 2) \<and>
   fst (str_split (fails_at 2) (Some (bytes ''a,b,c'')) (of_char CHR '','')) = None \<and>
   live (snd (str_split (fails_at 2) (Some (bytes ''a,b,c'')) (of_char CHR '',''))) = []"
proof -
  have "\<exists>j \<le> Suc (count_list (content (bytes ''a,b,c'')) (of_char CHR '','')).
      fails (fails_at 2) (calls (fails_at 2) + j)"
    by (rule exI [of _ 2]) (simp add: fails_at_def bytes_def content_def)
  from str_split_all_or_nothing [OF this] show ?thesis
    by (simp add: fails_at_def)
qed

text \<open>
  Claim C3: joining the tokens of \<open>str_split\<close> with the delimiter as separator gives the
  content of the text back, whether or not the delimiter occurs in it, when the
  allocations of both calls succeed.
\<close>

theorem split_join_roundtrip:
  assumes "\<forall>j \<le> Suc (Suc (count_list (content t) d)). \<not> fails h (calls h + j)"
  shows "\<exists>arr toks h1 res h2.
           str_split h (Some t) d = (Some (arr, toks), h1) \<and>
           str_join_n h1 (Some (map snd toks)) d = (Some (res, content t), h2)"
proof -
  have "\<forall>j \<le> Suc (count_list (content t) d). \<not> fails h (calls h + j)"
    using assms by simp
  from str_split_ok [OF this] obtain arr toks h1 where
    split: "str_split h (Some t) d = (Some (arr, toks), h1)" and
    toks: "map snd toks = tokens_of d (content t)" and
    f: "fails h1 = fails h" and
    c: "calls h1 = calls h + Suc (Suc (count_list (content t) d))"
    by blast
  have "\<not> fails h (calls h + Suc (Suc (count_list (content t) d)))"
    using assms by blast
  then have "\<not> fails h1 (calls h1)"
    using f c by simp
  then have "fst (str_join_n h1 (Some (map snd toks)) d) =
      Some (fresh (live h1), intercalate d (map content (map snd toks)))"
    by (rule str_join_n_ok)
  then have "fst (str_join_n h1 (Some (map snd toks)) d) = Some (fresh (live h1), content t)"
    by (simp add: toks map_content_tokens_of intercalate_tokens_of)
  then have "str_join_n h1 (Some (map snd toks)) d =
      (Some (fresh (live h1), content t), snd (str_join_n h1 (Some (map snd toks)) d))"
    by (metis prod.collapse)
  with split show ?thesis by blast
qed

text \<open>
  The round trip of \<open>Hello, World!\<close> through the comma, and that of \<open>Hello\<close>, which
  has none and is a single token.
\<close>

theorem split_join_roundtrip_witness:
  "(\<exists>arr toks h1 res h2.
      str_split heap0 (Some (bytes ''Hello, World!'')) (of_char CHR '','') =
        (Some (arr, toks), h1) \<and>
      str_join_n h1 (Some (map snd toks)) (of_char CHR '','') =
        (Some (res, bytes ''Hello, World!''), h2)) \<and>
   (\<exists>arr tok h1 res h2.
      str_split heap0 (Some (bytes ''Hello'')) (of_char CHR '','') = (Some (arr, [tok]), h1) \<and>
      str_join_n h1 (Some [snd tok]) (of_char CHR '','') = (Some (res, bytes ''Hello''), h2))"
proof -
  have "\<exists>arr toks h1 res h2.
      str_split heap0 (Some (bytes ''Hello, World!'')) (of_char CHR '','') =
        (Some (arr, toks), h1) \<and>
      str_join_n h1 (Some (map snd toks)) (of_char CHR '','') =
        (Some (res, bytes ''Hello, World!''), h2)"
    using split_join_roundtrip [of "bytes ''Hello, World!''" "of_char CHR '',''" heap0]
    by (simp add: heap0_def bytes_def content_def)
  moreover have "\<exists>arr tok h1 res h2.
      str_split heap0 (Some (bytes ''Hello'')) (of_char CHR '','') = (Some (arr, [tok]), h1) \<and>
      str_join_n h1 (Some [snd tok]) (of_char CHR '','') = (Some (res, bytes ''Hello''), h2)"
  proof -
    from split_join_roundtrip [of "bytes ''Hello''" "of_char CHR '',''" heap0]
    obtain arr toks h1 res h2 where
      sp: "str_split heap0 (Some (bytes ''Hello'')) (of_char CHR '','') = (Some (arr, toks), h1)"
      and jo: "str_join_n h1 (Some (map snd toks)) (of_char CHR '','') =
        (Some (res, bytes ''Hello''), h2)"
      by (auto simp: heap0_def bytes_def content_def)
    have "\<forall>j \<le> Suc (count_list (content (bytes ''Hello'')) (of_char CHR '','')).
        \<not> fails heap0 (calls heap0 + j)"
      by (simp add: heap0_def)
    from str_split_ok [OF this] sp have "length toks = 1"
      by (auto simp: bytes_def content_def dest: arg_cong [where f = length])
    then obtain tok where "toks = [tok]"
      by (cases toks) auto
    with sp jo show ?thesis by auto
  qed
  ultimately show ?thesis by blast
qed

text \<open>
  Claim C4: title-casing scans the text from left to right with the flag ``at word start'',
  true at first. A whitespace unit passes through unchanged and sets the flag; another unit
  met while the flag is set is upper-cased and clears it; every other unit is lower-cased.
  This holds of the in-place \<open>str_title\<close> and of the copying \<open>str_title_n\<close>, which
  yields no buffer only when its allocation fails.
\<close>

theorem title_case_scan:
  "map_option content (str_title (Some t)) = Some (title_case_spec (content t)) \<and>
   map_option snd (fst (str_title_n h (Some t))) =
     (if fails h (calls h) then None else Some (title_case_spec (content t)))"
  by (simp add: str_title_def str_title_n_def title_case_spec_def content_title_loop
      str_len_Some take_content title_loop_no_zero zero_notin_content malloc_def)

text \<open>
  The scenario of claim C4: the title case of \<open>the QUICK fox\<close> is \<open>The Quick Fox\<close>.
\<close>

theorem title_case_scan_witness:
  "map_option content (str_title (Some (bytes ''the QUICK fox''))) = Some (bytes ''The Quick Fox'') \<and>
   map_option snd (fst (str_title_n heap0 (Some (bytes ''the QUICK fox'')))) = Some (bytes ''The Quick Fox'')"
  using title_case_scan [of "bytes ''the QUICK fox''" heap0]
  by (simp add: heap0_def title_case_spec_def title_step_def whitespace_units_def bytes_def content_def
      char_capitalize_def char_decapitalize_def)

text \<open>
  Claim C5: the text \<open>str_trim\<close> leaves in its buffer neither starts nor ends with a
  whitespace unit, trimming that buffer again leaves it as it is, and a text of whitespace
  only becomes empty. What is left is the text between its leading and its trailing run
  of whitespace. The copying \<open>str_trim_n\<close> returns that same text, and the same again
  when applied to its result, unless its allocation fails.
\<close>

theorem trim_both:
  "\<exists>b. str_trim (Some t) = Some b \<and>
     no_edge_whitespace (content b) \<and>
     str_trim (Some b) = Some b \<and>
     (set (content t) \<subseteq> whitespace_units \<longrightarrow> content b = []) \<and>
     (\<exists>pre post. content t = pre @ content b @ post \<and>
        set pre \<subseteq> whitespace_units \<and> set post \<subseteq> whitespace_units) \<and>
     content b = trim_both_spec (content t) \<and>
     fst (str_trim_n h (Some t)) =
       (if fails h (calls h) then None else Some (fresh (live h), content b)) \<and>
     fst (str_trim_n h' (Some (content b))) =
       (if fails h' (calls h') then None else Some (fresh (live h'), content b))"
proof -
  from str_trim_content [of t] obtain b where
    b: "str_trim (Some t) = Some b" and c: "content b = trim_both_spec (content t)"
    by blast
  have edge: "no_edge_whitespace (content b)"
    by (simp add: c trim_both_spec_no_edge)
  then have "str_trim (Some b) = Some b"
    by (rule str_trim_fixed)
  moreover have "set (content t) \<subseteq> whitespace_units \<longrightarrow> content b = []"
    by (simp add: c trim_both_spec_blank)
  moreover have "\<exists>pre post. content t = pre @ content b @ post \<and>
      set pre \<subseteq> whitespace_units \<and> set post \<subseteq> whitespace_units"
    unfolding c by (rule trim_both_spec_middle)
  moreover have "fst (str_trim_n h (Some t)) =
      (if fails h (calls h) then None else Some (fresh (live h), content b))"
    by (simp add: str_trim_n_result c)
  moreover have "fst (str_trim_n h' (Some (content b))) =
      (if fails h' (calls h') then None else Some (fresh (live h'), content b))"
    by (simp add: str_trim_n_result content_idem trim_both_spec_fixed edge)
  ultimately show ?thesis
    using b c edge by blast
qed

text \<open>
  Both variants on a text with blanks on both sides, and the in-place one on three
  blanks.
\<close>

theorem trim_both_witness:
  "map_option content (str_trim (Some (bytes ''  ab c  ''))) = Some (bytes ''ab c'') \<and>
   map_option snd (fst (str_trim_n heap0 (Some (bytes ''  ab c  '')))) = Some (bytes ''ab c'') \<and>
   map_option content (str_trim (Some (bytes ''   ''))) = Some []"
  using trim_both [of "bytes ''  ab c  ''" heap0 heap0] trim_both [of "bytes ''   ''" heap0 heap0]
  by (auto simp: trim_both_spec_def whitespace_units_def bytes_def content_def heap0_def)

text \<open>
  Claim C6 says that \<open>str_substring_n\<close> clamps every out-of-range argument. The test for
  a length that reaches past the end adds \<open>start\<close> and \<open>length\<close> as C integers, so a large
  length overflows before it is compared: for the text \<open>abcdef\<close>, start 1 and length
  \<open>INT_MAX\<close> the sum is \<open>INT_MAX + 1\<close>, and the call does not return the remainder
  \<open>bcdef\<close>. Lemma \<open>str_substring_n_clamps\<close> shows the clamping whenever the sum fits.
\<close>

theorem str_substring_n_overflow:
  "str_substring_n heap0 (Some (bytes ''abcdef'')) 1 INT_MAX = (Inl Signed_Overflow, heap0)"
  by (simp add: str_substring_n_def str_len_Some bytes_def content_def INT_MAX_def)

text \<open>
  Claim C7 says that \<open>str_repeat_n\<close> returns the text concatenated with itself as many
  times as asked, of length count times the length of the text. The length of the result
  is computed as the product \<open>len * times\<close> of two C integers, so a large count overflows
  before the buffer is allocated: for the text \<open>abcd\<close> and the count \<open>2^30 + 2\<close> the
  product is \<open>2^32 + 8\<close>, above \<open>INT_MAX\<close>, and the call does not return that many copies.
  Lemma \<open>str_repeat_n_within_int\<close> shows the claimed result whenever the product fits.
\<close>

theorem str_repeat_n_overflow:
  "str_repeat_n heap0 (Some (bytes ''abcd'')) (2 ^ 30 + 2) = (Inl Signed_Overflow, heap0) \<and>
   (2 ^ 30 + 2 :: int) \<le> INT_MAX \<and>
   INT_MAX < str_len (Some (bytes ''abcd'')) * (2 ^ 30 + 2)"
  by (simp add: str_repeat_n_def str_len_Some bytes_def content_def INT_MAX_def)

text \<open>
  Claim C8: \<open>str_char_at\<close> yields the no-value unit 0 exactly when the index is negative
  or at least the length of the text (an absent text has length 0), and the unit at that
  position of the text otherwise.
\<close>

theorem str_char_at_range:
  "(str_char_at text index = 0 \<longleftrightarrow> index < 0 \<or> str_len text \<le> index) \<and>
   (0 \<le> index \<and> index < str_len text \<longrightarrow>
      (\<exists>s. text = Some s \<and> str_char_at text index = content s ! nat index))"
proof (cases "text")
  case None
  then show ?thesis by (auto simp: str_char_at_def str_len_def)
next
  case (Some s)
  have in_range: "deref s (nat index) = content s ! nat index \<and> content s ! nat index \<noteq> 0"
    if "0 \<le> index" "index < str_len text"
  proof -
    from that Some have lt: "nat index < length (content s)"
      by (simp add: str_len_Some)
    with length_content_le [of s] have "nat index < length s" by linarith
    with lt content_nth [of "nat index" s] content_nth_nonzero [of "nat index" s]
    show ?thesis
      by (simp add: deref_def)
  qed
  show ?thesis
    using Some in_range by (auto simp: str_char_at_def Let_def)
qed

text \<open>
  At \<open>abc\<close>, index 1 is in range and holds \<open>b\<close>; index 3 is not.
\<close>

theorem str_char_at_range_witness:
  "0 \<le> (1 :: int) \<and> 1 < str_len (Some (bytes ''abc'')) \<and>
   str_char_at (Some (bytes ''abc'')) 1 = of_char CHR ''b'' \<and>
   str_char_at (Some (bytes ''abc'')) 3 = 0"
  using str_char_at_range [of "Some (bytes ''abc'')" 1]
    str_char_at_range [of "Some (bytes ''abc'')" 3]
  by (auto simp: str_len_Some bytes_def content_def)

text \<open>
  Claim C9: the copying and the in-place case conversions agree. For a present text the
  content of the buffer \<open>str_uppercase_n\<close> returns is the content \<open>str_uppercase\<close> leaves
  in the buffer it is applied to, and likewise for the lowercase pair; the copying variant
  returns no buffer only when its allocation fails.
\<close>

theorem case_copy_agrees_with_in_place:
  "map_option (content \<circ> snd) (fst (str_uppercase_n h (Some t))) =
     (if fails h (calls h) then None else map_option content (str_uppercase (Some t))) \<and>
   map_option (content \<circ> snd) (fst (str_lowercase_n h (Some t))) =
     (if fails h (calls h) then None else map_option content (str_lowercase (Some t)))"
  by (simp add: str_uppercase_n_def str_uppercase_def str_lowercase_n_def str_lowercase_def
      malloc_def uppercase_copy_map content_uppercase_loop lowercase_copy_map
      content_lowercase_loop content_map_nonzero char_capitalize_nonzero
      char_decapitalize_nonzero)

text \<open>
  Both variants on \<open>Hello, World!\<close>.
\<close>

theorem case_copy_agrees_with_in_place_witness:
  "map_option (content \<circ> snd) (fst (str_uppercase_n heap0 (Some (bytes ''Hello, World!'')))) =
     Some (bytes ''HELLO, WORLD!'') \<and>
   map_option (content \<circ> snd) (fst (str_lowercase_n heap0 (Some (bytes ''Hello, World!'')))) =
     Some (bytes ''hello, world!'')"
  using case_copy_agrees_with_in_place [of heap0 "bytes ''Hello, World!''"]
  by (simp add: heap0_def str_uppercase_def str_lowercase_def bytes_def content_def
      char_capitalize_def char_decapitalize_def)

text \<open>
  Claim C10: searching for the zero unit with \<open>index_of\<close> returns -1 for every text,
  present or absent: the scan stops at the terminator before comparing it.
\<close>

theorem index_of_zero_not_found: "index_of 0 text = - 1"
  by (simp add: index_of_def index_of_loop_zero split: option.split)

end
